theory Spec2Isabelle
  imports Complex_Main "HOL-Library.Multiset"
begin

section \<open>Smart segmenter (utils/shotcutter/segmenter.py)\<close>

text \<open>
  Python floats are modelled as exact reals: every statement below is about the
  arithmetic the code writes down, without rounding error.
\<close>

type_synonym segment = "real \<times> real"

text \<open>The dataclass \<open>Shot\<close> of detector.py.\<close>

record Shot =
  start_frame :: int
  end_frame :: int
  start_time :: real
  end_time :: real
  duration :: real

record SmartSegmenter =
  max_duration :: real

text \<open>
  The inner loop of case 2,
  \<^verbatim>\<open>while remaining > self.max_duration: segments.append(...); shot_start += ...; remaining -= ...\<close>.
  It does not return when \<open>max_duration \<le> 0\<close>, so its result is an option;
  it yields the loop variables \<open>(segments, shot_start, remaining)\<close> at exit.
\<close>

partial_function (option) hard_split ::
  "real \<Rightarrow> segment list \<Rightarrow> real \<Rightarrow> real \<Rightarrow> (segment list \<times> real \<times> real) option" where
  "hard_split md segments shot_start remaining =
     (if remaining > md
      then hard_split md (segments @ [(shot_start, shot_start + md)]) (shot_start + md) (remaining - md)
      else Some (segments, shot_start, remaining))"

declare hard_split.simps [code]

text \<open>
  One iteration of \<^verbatim>\<open>for i, shot in enumerate(shots)\<close> on the loop state
  \<open>(segments, current_start, accumulated_duration)\<close>.
\<close>

definition segment_step ::
  "real \<Rightarrow> segment list \<times> real \<times> real \<Rightarrow> Shot \<Rightarrow> (segment list \<times> real \<times> real) option" where
  "segment_step md st shot =
     (case st of (segments, current_start, accumulated_duration) \<Rightarrow>
        if accumulated_duration + duration shot \<le> md
        then Some (segments, current_start, accumulated_duration + duration shot)
        else if duration shot > md
        then (let (segments1, current_start1) =
                    (if accumulated_duration > 0
                     then (segments @ [(current_start, current_start + accumulated_duration)],
                           current_start + accumulated_duration)
                     else (segments, current_start))
              in case hard_split md segments1 current_start1 (duration shot) of
                   None \<Rightarrow> None
                 | Some (segments2, shot_start, remaining) \<Rightarrow>
                     if remaining > 0
                     then Some (segments2 @ [(shot_start, shot_start + remaining)],
                                shot_start + remaining, 0)
                     else Some (segments2, shot_start, 0))
        else (if accumulated_duration > 0
              then Some (segments @ [(current_start, current_start + accumulated_duration)],
                         current_start + accumulated_duration, duration shot)
              else Some (segments, current_start, duration shot)))"

fun segment_loop ::
  "real \<Rightarrow> segment list \<times> real \<times> real \<Rightarrow> Shot list \<Rightarrow> (segment list \<times> real \<times> real) option" where
  "segment_loop md st [] = Some st"
| "segment_loop md st (shot # shots) =
     (case segment_step md st shot of
        None \<Rightarrow> None
      | Some st' \<Rightarrow> segment_loop md st' shots)"

text \<open>\<^verbatim>\<open>SmartSegmenter.segment\<close>; \<open>None\<close> means that the call does not return.\<close>

definition segment :: "SmartSegmenter \<Rightarrow> Shot list \<Rightarrow> segment list option" where
  "segment self shots =
     (if shots = [] then Some []
      else case segment_loop (max_duration self) ([], 0, 0) shots of
             None \<Rightarrow> None
           | Some (segments, current_start, accumulated_duration) \<Rightarrow>
               Some (if accumulated_duration > 0
                     then segments @ [(current_start, current_start + accumulated_duration)]
                     else segments))"

subsection \<open>Vocabulary for the properties of a segmentation\<close>

text \<open>A shot of the given length starting at the given time (frame numbers are not used).\<close>

definition mk_shot :: "real \<Rightarrow> real \<Rightarrow> Shot" where
  "mk_shot s d = \<lparr>start_frame = 0, end_frame = 0, start_time = s, end_time = s + d, duration = d\<rparr>"

text \<open>\<open>k\<close> back-to-back pieces of length \<open>md\<close>, the first one starting at \<open>s\<close>.\<close>

primrec chunks :: "real \<Rightarrow> real \<Rightarrow> nat \<Rightarrow> segment list" where
  "chunks md s 0 = []"
| "chunks md s (Suc k) = (s, s + md) # chunks md (s + md) k"

text \<open>\<open>chain a segs b\<close>: the segments tile the stretch from \<open>a\<close> to \<open>b\<close>, each
  one starting where its predecessor ends.\<close>

fun chain :: "real \<Rightarrow> segment list \<Rightarrow> real \<Rightarrow> bool" where
  "chain a [] b = (a = b)"
| "chain a (seg # segs) b = (fst seg = a \<and> chain (snd seg) segs b)"

text \<open>The segment under construction is closed, when it has content.\<close>

definition flush :: "segment list \<Rightarrow> real \<Rightarrow> real \<Rightarrow> segment list \<times> real" where
  "flush segments current_start accumulated_duration =
     (if accumulated_duration > 0
      then (segments @ [(current_start, current_start + accumulated_duration)],
            current_start + accumulated_duration)
      else (segments, current_start))"

text \<open>The sum of the lengths \<open>end - start\<close> of a list of segments.\<close>

definition total_length :: "segment list \<Rightarrow> real" where
  "total_length segs = (\<Sum>seg\<leftarrow>segs. snd seg - fst seg)"

text \<open>
  The shot list the detector is meant to deliver: the first shot starts at \<open>t\<close>, each
  shot starts where the one before it ends, and every shot has
  \<open>duration = end_time - start_time > 0\<close>.
\<close>

fun contiguous_from :: "real \<Rightarrow> Shot list \<Rightarrow> bool" where
  "contiguous_from t [] = True"
| "contiguous_from t (shot # shots) =
     (start_time shot = t \<and> duration shot = end_time shot - start_time shot \<and>
      0 < duration shot \<and> contiguous_from (end_time shot) shots)"

text \<open>The loop invariant for shots of positive length: the closed segments tile the
  stretch from 0 to current_start, nothing of the shots \<open>pre\<close> seen so far is lost,
  and something has been collected once a shot has been seen.\<close>

definition conserved :: "Shot list \<Rightarrow> segment list \<times> real \<times> real \<Rightarrow> bool" where
  "conserved pre st =
     (case st of (segs, cs, acc) \<Rightarrow>
        chain 0 segs cs \<and> 0 \<le> acc \<and> cs + acc = (\<Sum>shot\<leftarrow>pre. duration shot) \<and>
        (pre \<noteq> [] \<longrightarrow> segs \<noteq> [] \<or> 0 < acc))"

section \<open>Cutting and uploading (utils/shotcutter/cutter.py, oss_uploader.py)\<close>

subsection \<open>Python built-ins the code calls\<close>

text \<open>\<^verbatim>\<open>int(x)\<close> of a float: truncation towards zero.\<close>

definition int_of_float :: "real \<Rightarrow> int" where
  "int_of_float x = (if 0 \<le> x then \<lfloor>x\<rfloor> else \<lceil>x\<rceil>)"

text \<open>\<^verbatim>\<open>str(n)\<close> of an integer: its decimal digits, with a minus sign when negative.\<close>

fun str_nat :: "nat \<Rightarrow> string" where
  "str_nat n = (if n < 10 then [char_of (48 + n)]
                else str_nat (n div 10) @ [char_of (48 + n mod 10)])"

declare str_nat.simps [simp del]

definition str_int :: "int \<Rightarrow> string" where
  "str_int i = (if i < 0 then CHR ''-'' # str_nat (nat (- i)) else str_nat (nat i))"

text \<open>
  \<^verbatim>\<open>int(s)\<close> of a string, \<open>None\<close> standing for ValueError: surrounding white
  space is dropped, a sign may come first, then decimal digits, where single
  underscores may separate digits. The model is that of ASCII text: Python also
  reads the decimal digits and the spaces of other scripts. It puts no limit on the
  number of digits, where CPython from 3.11 on refuses more than 4300 by default.
\<close>

definition is_ascii :: "string \<Rightarrow> bool" where
  "is_ascii s = list_all (\<lambda>c. (of_char c :: nat) < 128) s"

definition is_space :: "char \<Rightarrow> bool" where
  "is_space c = ((of_char c :: nat) \<in> {9, 10, 11, 12, 13, 32})"

definition is_digit :: "char \<Rightarrow> bool" where
  "is_digit c = (48 \<le> (of_char c :: nat) \<and> (of_char c :: nat) \<le> 57)"

definition strip :: "string \<Rightarrow> string" where
  "strip s = rev (dropWhile is_space (rev (dropWhile is_space s)))"

fun parse_digits :: "string \<Rightarrow> nat \<Rightarrow> nat option" where
  "parse_digits [] acc = Some acc"
| "parse_digits (c # cs) acc =
     (if is_digit c then parse_digits cs (10 * acc + (of_char c - 48))
      else if c = CHR ''_'' \<and> cs \<noteq> [] \<and> is_digit (hd cs) then parse_digits cs acc
      else None)"

definition py_int :: "string \<Rightarrow> int option" where
  "py_int s =
     (let t = strip s;
          negative = (t \<noteq> [] \<and> hd t = CHR ''-'');
          u = (if t \<noteq> [] \<and> (hd t = CHR ''-'' \<or> hd t = CHR ''+'') then tl t else t)
      in if u \<noteq> [] \<and> is_digit (hd u)
         then map_option (\<lambda>n. if negative then - int n else int n) (parse_digits u 0)
         else None)"

text \<open>
  \<^verbatim>\<open>round(x, 1)\<close> on the reals: the nearest multiple of one tenth, a tie going to
  the even one.
\<close>

definition round_half_even :: "real \<Rightarrow> int" where
  "round_half_even x =
     (let f = \<lfloor>x\<rfloor>; d = x - of_int f
      in if d < 1 / 2 then f else if 1 / 2 < d then f + 1 else if even f then f else f + 1)"

definition round1 :: "real \<Rightarrow> real" where
  "round1 x = of_int (round_half_even (x * 10)) / 10"

text \<open>\<^verbatim>\<open>os.path.join(a, b)\<close> and the extension part of \<^verbatim>\<open>os.path.splitext(p)\<close> (POSIX).\<close>

definition path_join :: "string \<Rightarrow> string \<Rightarrow> string" where
  "path_join a b =
     (if b \<noteq> [] \<and> hd b = CHR ''/'' then b
      else if a = [] \<or> last a = CHR ''/'' then a @ b
      else a @ ''/'' @ b)"

definition splitext_ext :: "string \<Rightarrow> string" where
  "splitext_ext p =
     (let r = rev p;
          ext = takeWhile (\<lambda>c. c \<noteq> CHR ''.'' \<and> c \<noteq> CHR ''/'') r;
          rest = dropWhile (\<lambda>c. c \<noteq> CHR ''.'' \<and> c \<noteq> CHR ''/'') r
      in if rest \<noteq> [] \<and> hd rest = CHR ''.'' \<and>
            (\<exists>c \<in> set (takeWhile (\<lambda>c. c \<noteq> CHR ''/'') (tl rest)). c \<noteq> CHR ''.'')
         then CHR ''.'' # rev ext
         else [])"

subsection \<open>Worker-pool size\<close>

text \<open>
  \<^verbatim>\<open>get_max_workers\<close>. Its two inputs are what \<^verbatim>\<open>os.cpu_count()\<close> returns
  (\<open>None\<close> when the count is unknown) and what
  \<^verbatim>\<open>os.environ.get('SHOTCUTTER_MAX_WORKERS')\<close> returns (\<open>None\<close> when the variable is
  not set). The product \<^verbatim>\<open>cpu_count * 0.6\<close> is taken in the reals; the product of
  doubles truncates to the same integer for every count a machine reports.
\<close>

definition get_max_workers :: "int option \<Rightarrow> string option \<Rightarrow> int" where
  "get_max_workers os_cpu_count env_workers =
     (let cpu_count = (case os_cpu_count of None \<Rightarrow> 4 | Some n \<Rightarrow> if n = 0 then 4 else n);
          workers = int_of_float (of_int cpu_count * (6 / 10));
          workers = max 2 (min 48 workers)
      in case env_workers of
           None \<Rightarrow> workers
         | Some s \<Rightarrow>
             if s = [] then workers
             else (case py_int s of Some v \<Rightarrow> v | None \<Rightarrow> workers))"

text \<open>The pool size as the specification words it: \<open>clamp(round(n * 0.6), 2, 48)\<close>.\<close>

definition spec_pool_size :: "int \<Rightarrow> int" where
  "spec_pool_size n = max 2 (min 48 (round (of_int n * (6 / 10) :: real)))"

subsection \<open>The outside world\<close>

text \<open>What \<^verbatim>\<open>subprocess.run\<close> does with the ffmpeg command: it returns with an exit
  code and the text on stderr, or raises TimeoutExpired, or raises another exception
  (carried as \<^verbatim>\<open>str(e)\<close>).\<close>

datatype proc_outcome = Completed int string | TimeoutExpired | Raised string

text \<open>
  The dictionaries the two workers return. A key that a dictionary may lack is an
  option field (\<open>None\<close>: key absent). \<open>c_path\<close> and \<open>u_oss_url\<close> are always present,
  and there \<open>None\<close> is Python's \<^verbatim>\<open>None\<close>.
\<close>

record CutResult =
  c_index :: int
  c_path :: "string option"
  c_start :: real
  c_end :: real
  c_status :: string
  c_error :: "string option"

record UploadResult =
  u_index :: int
  u_start :: real
  u_end :: real
  u_duration :: real
  u_task_id :: string
  u_oss_url :: "string option"
  u_status :: "string option"
  u_error :: "string option"

text \<open>
  Everything the pipeline gets from outside: the scratch directory, the ffmpeg run
  (by input path, start, duration and output path), the size of the file at a path
  once cutting is over (\<open>None\<close>: no such file; the code never asks), reading a local
  file and the bucket's \<^verbatim>\<open>put_object\<close> (\<open>Inl\<close>: the exception raised, as
  \<^verbatim>\<open>str(e)\<close>; \<open>Inr\<close>: the content, the HTTP status), the bucket name, and the
  order in which \<^verbatim>\<open>as_completed\<close> hands over the finished tasks of each stage.
\<close>

record environment =
  temp_dir :: string
  run_ffmpeg :: "string \<Rightarrow> real \<Rightarrow> real \<Rightarrow> string \<Rightarrow> proc_outcome"
  output_size :: "string \<Rightarrow> nat option"
  read_file :: "string \<Rightarrow> string + string"
  put_object :: "string \<Rightarrow> string \<Rightarrow> string + int"
  bucket_name :: string
  cut_completed :: "CutResult list \<Rightarrow> CutResult list"
  upload_completed :: "UploadResult list \<Rightarrow> UploadResult list"

subsection \<open>The cut worker\<close>

text \<open>The two fixed messages, as UTF-8 bytes: \<^verbatim>\<open>"ffmpeg<U+9519><U+8BEF>: "\<close> and the
  five-minute timeout notice.\<close>

definition ffmpeg_error_prefix :: string where
  "ffmpeg_error_prefix =
     ''ffmpeg'' @ [CHR 0xE9, CHR 0x94, CHR 0x99, CHR 0xE8, CHR 0xAF, CHR 0xAF] @ '': ''"

definition cut_timeout_message :: string where
  "cut_timeout_message =
     [CHR 0xE5, CHR 0x88, CHR 0x87, CHR 0xE5, CHR 0x89, CHR 0xB2, CHR 0xE8, CHR 0xB6, CHR 0x85,
      CHR 0xE6, CHR 0x97, CHR 0xB6, CHR 0xEF, CHR 0xBC, CHR 0x88, CHR 0x35, CHR 0xE5, CHR 0x88,
      CHR 0x86, CHR 0xE9, CHR 0x92, CHR 0x9F, CHR 0xEF, CHR 0xBC, CHR 0x89]"

text \<open>\<^verbatim>\<open>_cut_single_segment\<close>, on \<open>(video_path, start, end, output_path, index)\<close>.\<close>

definition cut_single_segment ::
  "environment \<Rightarrow> string \<times> real \<times> real \<times> string \<times> int \<Rightarrow> CutResult" where
  "cut_single_segment env args =
     (case args of (video_path, start, end', output_path, index) \<Rightarrow>
        (let duration = end' - start
         in (case run_ffmpeg env video_path start duration output_path of
               Completed returncode stderr \<Rightarrow>
                 (if returncode = 0
                  then \<lparr>c_index = index, c_path = Some output_path, c_start = start, c_end = end',
                        c_status = ''success'', c_error = None\<rparr>
                  else \<lparr>c_index = index, c_path = None, c_start = start, c_end = end',
                        c_status = ''failed'',
                        c_error = Some (ffmpeg_error_prefix @ drop (length stderr - 200) stderr)\<rparr>)
             | TimeoutExpired \<Rightarrow>
                 \<lparr>c_index = index, c_path = None, c_start = start, c_end = end',
                  c_status = ''failed'', c_error = Some cut_timeout_message\<rparr>
             | Raised e \<Rightarrow>
                 \<lparr>c_index = index, c_path = None, c_start = start, c_end = end',
                  c_status = ''failed'', c_error = Some e\<rparr>)))"

text \<open>The success criterion of the cut stage as the specification words it: the
  external operation reports success and the produced file exists and is not empty.\<close>

definition spec_cut_success :: "environment \<Rightarrow> string \<times> real \<times> real \<times> string \<times> int \<Rightarrow> bool" where
  "spec_cut_success env args =
     (case args of (video_path, start, end', output_path, index) \<Rightarrow>
        (\<exists>stderr. run_ffmpeg env video_path start (end' - start) output_path = Completed 0 stderr) \<and>
        (case output_size env output_path of None \<Rightarrow> False | Some n \<Rightarrow> 0 < n))"

subsection \<open>The upload worker\<close>

text \<open>\<^verbatim>\<open>upload_to_oss_from_local\<close>: \<open>Inl\<close> is an exception that leaves the function,
  \<open>Inr\<close> the string it returns. A path that is \<^verbatim>\<open>None\<close> makes \<^verbatim>\<open>open\<close> raise
  TypeError.\<close>

definition upload_to_oss_from_local :: "environment \<Rightarrow> string option \<Rightarrow> string \<Rightarrow> string + string" where
  "upload_to_oss_from_local env video_path task_id =
     (case video_path of
        None \<Rightarrow> Inl ''expected str, bytes or os.PathLike object, not NoneType''
      | Some path \<Rightarrow>
          (case read_file env path of
             Inl e \<Rightarrow> Inl e
           | Inr video_content \<Rightarrow>
               (let file_extension = (if splitext_ext path = [] then ''.mp4'' else splitext_ext path);
                    object_key = task_id @ file_extension
                in (case put_object env object_key video_content of
                      Inl e \<Rightarrow> Inl e
                    | Inr status \<Rightarrow>
                        (if status = 200
                         then Inr (''https://'' @ bucket_name env @ ''.oss-cn-hangzhou.aliyuncs.com/''
                                   @ object_key)
                         else Inr (str_int status))))))"

text \<open>\<^verbatim>\<open>_upload_single_segment\<close>, on \<open>(local_path, task_id, index, start, end)\<close>.\<close>

definition upload_single_segment ::
  "environment \<Rightarrow> string option \<times> string \<times> int \<times> real \<times> real \<Rightarrow> UploadResult" where
  "upload_single_segment env args =
     (case args of (local_path, task_id, index, start, end') \<Rightarrow>
        (case upload_to_oss_from_local env local_path task_id of
           Inr oss_url \<Rightarrow>
             \<lparr>u_index = index, u_start = round1 start, u_end = round1 end',
              u_duration = round1 (end' - start), u_task_id = task_id,
              u_oss_url = Some oss_url, u_status = Some ''success'', u_error = None\<rparr>
         | Inl e \<Rightarrow>
             \<lparr>u_index = index, u_start = round1 start, u_end = round1 end',
              u_duration = round1 (end' - start), u_task_id = task_id,
              u_oss_url = None, u_status = Some ''failed'', u_error = Some e\<rparr>))"

subsection \<open>The pipeline\<close>

text \<open>The argument tuples of the two stages, as \<^verbatim>\<open>cut_and_upload\<close> builds them.\<close>

definition cut_tasks ::
  "environment \<Rightarrow> string \<Rightarrow> segment list \<Rightarrow> (string \<times> real \<times> real \<times> string \<times> int) list" where
  "cut_tasks env video_path segments =
     map (\<lambda>(idx, (start, end')).
            (video_path, start, end',
             path_join (temp_dir env) (''segment_'' @ str_int (int idx + 1) @ ''.mp4''),
             int idx + 1))
         (enumerate 0 segments)"

definition upload_task :: "string \<Rightarrow> CutResult \<Rightarrow> string option \<times> string \<times> int \<times> real \<times> real" where
  "upload_task name result =
     (c_path result, name @ ''-'' @ str_int (c_index result), c_index result,
      c_start result, c_end result)"

text \<open>
  \<^verbatim>\<open>cut_and_upload\<close>. The pools, the timing and the progress messages are left out;
  each stage is the list of its workers' results in the order of completion.
\<close>

definition cut_and_upload :: "environment \<Rightarrow> string \<Rightarrow> segment list \<Rightarrow> string \<Rightarrow> UploadResult list" where
  "cut_and_upload env video_path segments name =
     (let cut_results = cut_completed env (map (cut_single_segment env) (cut_tasks env video_path segments));
          success_cuts = filter (\<lambda>r. c_status r = ''success'') cut_results;
          upload_tasks = map (upload_task name) success_cuts;
          upload_results = upload_completed env (map (upload_single_segment env) upload_tasks);
          final_results = sort_key u_index (filter (\<lambda>r. u_status r = Some ''success'') upload_results)
      in map (\<lambda>r. r\<lparr>u_status := None\<rparr>) final_results)"

text \<open>The index of a cut task, and whether both workers report success for it.\<close>

definition task_index :: "string \<times> real \<times> real \<times> string \<times> int \<Rightarrow> int" where
  "task_index args = snd (snd (snd (snd args)))"

definition both_succeed :: "environment \<Rightarrow> string \<Rightarrow> string \<times> real \<times> real \<times> string \<times> int \<Rightarrow> bool" where
  "both_succeed env name args =
     (c_status (cut_single_segment env args) = ''success'' \<and>
      u_status (upload_single_segment env (upload_task name (cut_single_segment env args)))
        = Some ''success'')"

text \<open>An outside world for the examples: a directory under \<^verbatim>\<open>/tmp\<close>; ffmpeg exits
  with 0 except for segments starting at 25 s; every file can be read; the bucket
  answers 200 except for the key \<^verbatim>\<open>clip-3.mp4\<close>, where it raises; tasks complete in
  reverse order.\<close>

definition example_env :: environment where
  "example_env =
     \<lparr>temp_dir = ''/tmp/shotcutter_x'',
      run_ffmpeg = (\<lambda>video_path start duration output_path.
                      if start = 25 then Completed 1 ''Invalid data'' else Completed 0 []),
      output_size = (\<lambda>path. Some 1000),
      read_file = (\<lambda>path. Inr ''data''),
      put_object = (\<lambda>object_key content.
                      if object_key = ''clip-3.mp4'' then Inl ''ConnectionError'' else Inr 200),
      bucket_name = ''ali-saving-data'',
      cut_completed = rev,
      upload_completed = rev\<rparr>"

section \<open>Properties of the segmenter\<close>

subsection \<open>The hard split\<close>


lemma hard_split_chunks:
  "0 < md \<Longrightarrow> remaining \<le> md * real (Suc k) \<Longrightarrow> (0 < k \<longrightarrow> md * real k < remaining) \<Longrightarrow>
   hard_split md segments shot_start remaining =
     Some (segments @ chunks md shot_start k, shot_start + md * real k, remaining - md * real k)"
proof (induction k arbitrary: segments shot_start remaining)
  case 0
  then show ?case by (simp add: hard_split.simps)
next
  case (Suc k)
  have "0 \<le> md * real k"
    using Suc.prems(1) by simp
  moreover have "md * real (Suc k) = md * real k + md"
    by (simp add: algebra_simps)
  ultimately have gt: "remaining > md"
    using Suc.prems(3) by simp
  have a: "remaining - md \<le> md * real (Suc k)"
    using Suc.prems by (simp add: algebra_simps)
  have b: "0 < k \<longrightarrow> md * real k < remaining - md"
    using Suc.prems by (simp add: algebra_simps)
  show ?case
    using gt Suc.IH [OF Suc.prems(1) a b, of "segments @ [(shot_start, shot_start + md)]" "shot_start + md"]
    by (subst hard_split.simps) (simp add: algebra_simps)
qed

lemma split_count_ex:
  assumes md: "0 < (md::real)"
  shows "\<exists>k::nat. remaining \<le> md * real (Suc k) \<and> (0 < k \<longrightarrow> md * real k < remaining)"
proof -
  define c where "c = \<lceil>remaining / md\<rceil>"
  have "remaining / md \<le> of_int c" and "of_int c - 1 < remaining / md"
    unfolding c_def by linarith+
  then have up: "remaining \<le> md * of_int c" and lo: "md * (of_int c - 1) < remaining"
    using md by (simp_all add: pos_divide_le_eq pos_less_divide_eq mult.commute)
  show ?thesis
  proof (cases "c \<le> 1")
    case True
    then have "of_int c \<le> (1::real)" by simp
    then have "md * of_int c \<le> md" using md by simp
    with up have "remaining \<le> md * real (Suc 0)" by simp
    then show ?thesis by blast
  next
    case False
    define k where "k = nat (c - 1)"
    from False have k: "real k = of_int c - 1" and "0 < k"
      by (simp_all add: k_def)
    then have "real (Suc k) = of_int c"
      by simp
    with k up lo have "remaining \<le> md * real (Suc k)" "md * real k < remaining"
      by presburger+
    with \<open>0 < k\<close> show ?thesis by blast
  qed
qed

text \<open>What one iteration does, when max_duration is positive.\<close>

lemma segment_step_cases:
  assumes md: "0 < md"
  obtains
    (absorb) "acc + duration shot \<le> md"
      "segment_step md (segs, cs, acc) shot = Some (segs, cs, acc + duration shot)"
  | (oversize) k r where "\<not> acc + duration shot \<le> md" "md < duration shot"
      "0 < k" "0 < r" "r \<le> md" "duration shot = md * real k + r"
      "segment_step md (segs, cs, acc) shot =
         Some (fst (flush segs cs acc) @ chunks md (snd (flush segs cs acc)) k
                 @ [(snd (flush segs cs acc) + md * real k, snd (flush segs cs acc) + md * real k + r)],
               snd (flush segs cs acc) + md * real k + r, 0)"
  | (overflow) "\<not> acc + duration shot \<le> md" "duration shot \<le> md"
      "segment_step md (segs, cs, acc) shot =
         Some (fst (flush segs cs acc), snd (flush segs cs acc), duration shot)"
proof (cases "acc + duration shot \<le> md")
  case True
  then show ?thesis by (intro absorb) (simp_all add: segment_step_def)
next
  case nofit: False
  show ?thesis
  proof (cases "md < duration shot")
    case False
    with nofit show ?thesis
      by (intro overflow) (simp_all add: segment_step_def flush_def)
  next
    case True
    obtain k where k: "duration shot \<le> md * real (Suc k)" "0 < k \<longrightarrow> md * real k < duration shot"
      using split_count_ex [OF md] by blast
    have kpos: "0 < k"
    proof (rule ccontr)
      assume "\<not> 0 < k"
      with k(1) True show False by simp
    qed
    define r where "r = duration shot - md * real k"
    have r: "0 < r" "r \<le> md" "duration shot = md * real k + r"
      using k kpos by (simp_all add: r_def algebra_simps)
    have "segment_step md (segs, cs, acc) shot =
         Some (fst (flush segs cs acc) @ chunks md (snd (flush segs cs acc)) k
                 @ [(snd (flush segs cs acc) + md * real k, snd (flush segs cs acc) + md * real k + r)],
               snd (flush segs cs acc) + md * real k + r, 0)"
      using nofit True r(1)
      by (simp add: segment_step_def flush_def hard_split_chunks [OF md k] r_def)
    with nofit True kpos r show ?thesis
      by (intro oversize)
  qed
qed


subsection \<open>Chains\<close>

lemma chain_append: "chain a (xs @ ys) c \<longleftrightarrow> (\<exists>b. chain a xs b \<and> chain b ys c)"
  by (induction xs arbitrary: a) auto

lemma chain_snoc: "chain a (xs @ [(s, e)]) c \<longleftrightarrow> chain a xs s \<and> e = c"
  by (auto simp: chain_append)

lemma chain_chunks: "chain s (chunks md s k) (s + md * real k)"
proof (induction k arbitrary: s)
  case 0
  show ?case by simp
next
  case (Suc k)
  from Suc [of "s + md"] show ?case by (simp add: algebra_simps)
qed

lemma chain_flush: "chain a segs cs \<Longrightarrow> chain a (fst (flush segs cs acc)) (snd (flush segs cs acc))"
  by (simp add: flush_def chain_snoc)

lemma chain_hd: "chain a segs b \<Longrightarrow> segs \<noteq> [] \<Longrightarrow> fst (hd segs) = a"
  by (cases segs) simp_all

lemma chain_last: "chain a segs b \<Longrightarrow> segs \<noteq> [] \<Longrightarrow> snd (last segs) = b"
  by (induction segs arbitrary: a) (auto split: if_splits)

lemma chain_nth: "chain a segs b \<Longrightarrow> Suc i < length segs \<Longrightarrow> fst (segs ! Suc i) = snd (segs ! i)"
proof (induction segs arbitrary: a i)
  case Nil
  then show ?case by simp
next
  case (Cons seg segs)
  show ?case
  proof (cases i)
    case 0
    with Cons.prems show ?thesis by (cases segs) simp_all
  next
    case (Suc j)
    with Cons.prems Cons.IH [of "snd seg" j] show ?thesis by simp
  qed
qed

lemma chain_total_length: "chain a segs b \<Longrightarrow> total_length segs = b - a"
  unfolding total_length_def by (induction segs arbitrary: a) auto

subsection \<open>The loop\<close>

lemma segment_loop_invariant:
  assumes step: "\<And>pre st shot. I pre st \<Longrightarrow> shot \<in> set shots \<Longrightarrow>
                   \<exists>st'. segment_step md st shot = Some st' \<and> I (pre @ [shot]) st'"
    and init: "I pre st"
  shows "\<exists>st'. segment_loop md st shots = Some st' \<and> I (pre @ shots) st'"
  using assms
proof (induction shots arbitrary: pre st)
  case Nil
  then show ?case by simp
next
  case (Cons shot shots)
  from Cons.prems(1) [OF Cons.prems(2), of shot]
  obtain st1 where st1: "segment_step md st shot = Some st1" "I (pre @ [shot]) st1"
    by auto
  have step': "\<exists>st'. segment_step md st sh = Some st' \<and> I (pre @ [sh]) st'"
    if "I pre st" "sh \<in> set shots" for pre st sh
    using Cons.prems(1) [of pre st sh] that by simp
  have "\<exists>st'. segment_loop md st1 shots = Some st' \<and> I ((pre @ [shot]) @ shots) st'"
    using step' st1(2) by (rule Cons.IH)
  with st1(1) show ?case by simp
qed

text \<open>First invariant: the closed segments tile the stretch from 0 to current_start.\<close>

lemma segment_step_chain:
  assumes "0 < md" "chain 0 segs cs"
  shows "\<exists>segs' cs' acc'. segment_step md (segs, cs, acc) shot = Some (segs', cs', acc') \<and> chain 0 segs' cs'"
  using assms(1)
proof (cases rule: segment_step_cases [where acc = acc and shot = shot and segs = segs and cs = cs])
  case absorb
  with assms(2) show ?thesis by simp
next
  case (oversize k r)
  from chain_flush [OF assms(2), of acc] chain_chunks [of "snd (flush segs cs acc)" md k]
  show ?thesis
    unfolding oversize(7) by (auto simp: chain_append chain_snoc simp flip: append_assoc)
next
  case overflow
  from chain_flush [OF assms(2), of acc] show ?thesis
    unfolding overflow(3) by simp
qed


lemma segment_of_loop:
  "shots \<noteq> [] \<Longrightarrow> segment_loop (max_duration self) ([], 0, 0) shots = Some (segs, cs, acc) \<Longrightarrow>
   segment self shots = Some (fst (flush segs cs acc))"
  by (simp add: segment_def flush_def)

lemma segment_loop_chain:
  assumes "0 < md" "chain 0 segs cs"
  shows "\<exists>segs' cs' acc'. segment_loop md (segs, cs, acc) shots = Some (segs', cs', acc') \<and> chain 0 segs' cs'"
proof -
  have "\<exists>st'. segment_loop md (segs, cs, acc) shots = Some st' \<and>
          (\<lambda>pre (segs, cs, acc). chain 0 segs cs) ([] @ shots) st'"
  proof (rule segment_loop_invariant)
    show "(\<lambda>pre (segs, cs, acc). chain 0 segs cs) [] (segs, cs, acc)"
      using assms(2) by simp
  next
    fix pre :: "Shot list" and st :: "segment list \<times> real \<times> real" and shot
    assume "(\<lambda>pre (segs, cs, acc). chain 0 segs cs) pre st"
    then show "\<exists>st'. segment_step md st shot = Some st' \<and>
                 (\<lambda>pre (segs, cs, acc). chain 0 segs cs) (pre @ [shot]) st'"
      using segment_step_chain [OF assms(1), of "fst st" "fst (snd st)" "snd (snd st)" shot]
      by (cases st) auto
  qed
  then show ?thesis by auto
qed

text \<open>
  C1. For a non-empty shot list and a positive max_duration, \<open>segment\<close> returns, and the
  list it returns is seamless: its first segment (when there is one) starts at 0,
  whatever start_time the first shot records, and every segment starts exactly where
  the one before it ends.
\<close>

theorem segment_seamless:
  assumes "0 < max_duration self" and "shots \<noteq> []"
  shows "\<exists>segs. segment self shots = Some segs \<and>
           (segs \<noteq> [] \<longrightarrow> fst (hd segs) = 0) \<and>
           (\<forall>i. Suc i < length segs \<longrightarrow> fst (segs ! Suc i) = snd (segs ! i))"
proof -
  obtain segs cs acc where loop: "segment_loop (max_duration self) ([], 0, 0) shots = Some (segs, cs, acc)"
    and ch: "chain 0 segs cs"
    using segment_loop_chain [OF assms(1), of "[]" 0 0 shots] by auto
  let ?out = "fst (flush segs cs acc)"
  have "segment self shots = Some ?out"
    using assms(2) loop by (rule segment_of_loop)
  moreover have "chain 0 ?out (snd (flush segs cs acc))"
    using ch by (rule chain_flush)
  ultimately show ?thesis
    using chain_hd chain_nth by blast
qed

text \<open>Two shots recorded from 7 s on, the second one oversize.\<close>

theorem segment_seamless_witness:
  "segment \<lparr>max_duration = 30\<rparr> [mk_shot 7 20, mk_shot 27 45] = Some [(0, 20), (20, 50), (50, 65)] \<and>
   (\<exists>segs. segment \<lparr>max_duration = 30\<rparr> [mk_shot 7 20, mk_shot 27 45] = Some segs \<and>
           (segs \<noteq> [] \<longrightarrow> fst (hd segs) = 0) \<and>
           (\<forall>i. Suc i < length segs \<longrightarrow> fst (segs ! Suc i) = snd (segs ! i)))"
proof
  show "segment \<lparr>max_duration = 30\<rparr> [mk_shot 7 20, mk_shot 27 45] = Some [(0, 20), (20, 50), (50, 65)]"
    by (simp add: segment_def segment_step_def mk_shot_def hard_split.simps)
  show "\<exists>segs. segment \<lparr>max_duration = 30\<rparr> [mk_shot 7 20, mk_shot 27 45] = Some segs \<and>
           (segs \<noteq> [] \<longrightarrow> fst (hd segs) = 0) \<and>
           (\<forall>i. Suc i < length segs \<longrightarrow> fst (segs ! Suc i) = snd (segs ! i))"
    using segment_seamless [of "\<lparr>max_duration = 30\<rparr>" "[mk_shot 7 20, mk_shot 27 45]"] by simp
qed


subsection \<open>The bound\<close>

lemma chunks_length: "seg \<in> set (chunks md s k) \<Longrightarrow> snd seg - fst seg = md"
  by (induction k arbitrary: s) auto

lemma flush_bounded:
  "\<forall>seg\<in>set segs. snd seg - fst seg \<le> md \<Longrightarrow> acc \<le> md \<Longrightarrow>
   \<forall>seg\<in>set (fst (flush segs cs acc)). snd seg - fst seg \<le> md"
  by (simp add: flush_def)

lemma segment_step_bounded:
  assumes "0 < md" and "\<forall>seg\<in>set segs. snd seg - fst seg \<le> md" and "acc \<le> md"
  shows "\<exists>segs' cs' acc'. segment_step md (segs, cs, acc) shot = Some (segs', cs', acc') \<and>
           (\<forall>seg\<in>set segs'. snd seg - fst seg \<le> md) \<and> acc' \<le> md"
  using assms(1)
proof (cases rule: segment_step_cases [where acc = acc and shot = shot and segs = segs and cs = cs])
  case absorb
  with assms(2) show ?thesis by simp
next
  case (oversize k r)
  from flush_bounded [OF assms(2,3), of cs] oversize(5) assms(1) show ?thesis
    unfolding oversize(7) by (auto dest: chunks_length)
next
  case overflow
  from flush_bounded [OF assms(2,3), of cs] overflow(2) show ?thesis
    unfolding overflow(3) by simp
qed

lemma segment_loop_bounded:
  assumes "0 < md" and "\<forall>seg\<in>set segs. snd seg - fst seg \<le> md" and "acc \<le> md"
  shows "\<exists>segs' cs' acc'. segment_loop md (segs, cs, acc) shots = Some (segs', cs', acc') \<and>
           (\<forall>seg\<in>set segs'. snd seg - fst seg \<le> md) \<and> acc' \<le> md"
proof -
  let ?I = "\<lambda>(pre::Shot list) (segs, cs::real, acc). (\<forall>seg\<in>set segs. snd seg - fst seg \<le> md) \<and> acc \<le> md"
  have "\<exists>st'. segment_loop md (segs, cs, acc) shots = Some st' \<and> ?I ([] @ shots) st'"
  proof (rule segment_loop_invariant)
    show "?I [] (segs, cs, acc)"
      using assms(2,3) by simp
  next
    fix pre :: "Shot list" and st :: "segment list \<times> real \<times> real" and shot
    assume "?I pre st"
    then show "\<exists>st'. segment_step md st shot = Some st' \<and> ?I (pre @ [shot]) st'"
      using segment_step_bounded [OF assms(1), of "fst st" "snd (snd st)" "fst (snd st)" shot]
      by (cases st) auto
  qed
  then show ?thesis by auto
qed

text \<open>
  C3. For every shot list and a positive max_duration, \<open>segment\<close> returns, and every
  segment \<open>(start, end)\<close> it returns has \<open>end - start \<le> max_duration\<close>.
\<close>

theorem segment_bounded:
  assumes "0 < max_duration self"
  shows "\<exists>segs. segment self shots = Some segs \<and>
           (\<forall>seg\<in>set segs. snd seg - fst seg \<le> max_duration self)"
proof (cases "shots = []")
  case True
  then show ?thesis by (simp add: segment_def)
next
  case False
  obtain segs cs acc where loop: "segment_loop (max_duration self) ([], 0, 0) shots = Some (segs, cs, acc)"
    and bnd: "\<forall>seg\<in>set segs. snd seg - fst seg \<le> max_duration self" "acc \<le> max_duration self"
    using segment_loop_bounded [OF assms, of "[]" 0 0 shots] assms by auto
  have "segment self shots = Some (fst (flush segs cs acc))"
    using False loop by (rule segment_of_loop)
  with flush_bounded [OF bnd, of cs] show ?thesis by simp
qed

text \<open>Shots of 20 s, 10 s, 70 s and 0.5 s against a limit of 30 s: two segments reach
  the limit exactly, none exceeds it.\<close>

theorem segment_bounded_witness:
  "segment \<lparr>max_duration = 30\<rparr> [mk_shot 0 20, mk_shot 20 10, mk_shot 30 70, mk_shot 100 0.5]
     = Some [(0, 30), (30, 60), (60, 90), (90, 100), (100, 100.5)] \<and>
   (\<exists>segs. segment \<lparr>max_duration = 30\<rparr> [mk_shot 0 20, mk_shot 20 10, mk_shot 30 70, mk_shot 100 0.5] = Some segs \<and>
           (\<forall>seg\<in>set segs. snd seg - fst seg \<le> 30))"
proof
  show "segment \<lparr>max_duration = 30\<rparr> [mk_shot 0 20, mk_shot 20 10, mk_shot 30 70, mk_shot 100 0.5]
     = Some [(0, 30), (30, 60), (60, 90), (90, 100), (100, 100.5)]"
    by (simp add: segment_def segment_step_def mk_shot_def hard_split.simps)
  show "\<exists>segs. segment \<lparr>max_duration = 30\<rparr> [mk_shot 0 20, mk_shot 20 10, mk_shot 30 70, mk_shot 100 0.5] = Some segs \<and>
           (\<forall>seg\<in>set segs. snd seg - fst seg \<le> 30)"
    using segment_bounded [of "\<lparr>max_duration = 30\<rparr>" "[mk_shot 0 20, mk_shot 20 10, mk_shot 30 70, mk_shot 100 0.5]"]
    by simp
qed


subsection \<open>Conservation\<close>

lemma flush_snd: "0 \<le> acc \<Longrightarrow> snd (flush segs cs acc) = cs + acc"
  by (simp add: flush_def)

lemma flush_nonempty: "segs \<noteq> [] \<or> 0 < acc \<Longrightarrow> fst (flush segs cs acc) \<noteq> []"
  by (auto simp: flush_def)

lemma segment_step_conserved:
  assumes md: "0 < md" and d: "0 < duration shot" and inv: "conserved pre (segs, cs, acc)"
  shows "\<exists>st'. segment_step md (segs, cs, acc) shot = Some st' \<and> conserved (pre @ [shot]) st'"
proof -
  from inv have ch: "chain 0 segs cs" and acc: "0 \<le> acc"
    and total: "cs + acc = (\<Sum>shot\<leftarrow>pre. duration shot)"
    by (simp_all add: conserved_def)
  note fl = chain_flush [OF ch, of acc] flush_snd [OF acc, of segs cs]
  from md show ?thesis
  proof (cases rule: segment_step_cases [where acc = acc and shot = shot and segs = segs and cs = cs])
    case absorb
    with ch acc d total show ?thesis
      by (simp add: conserved_def)
  next
    case (oversize k r)
    have "chain 0 (fst (flush segs cs acc) @ chunks md (cs + acc) k
                     @ [(cs + acc + md * real k, cs + acc + md * real k + r)])
            (cs + acc + md * real k + r)"
      using fl chain_chunks [of "cs + acc" md k]
      by (auto simp: chain_append chain_snoc simp flip: append_assoc)
    with oversize(6) total show ?thesis
      unfolding oversize(7) fl(2) by (simp add: conserved_def algebra_simps)
  next
    case overflow
    with fl d total show ?thesis
      by (simp add: conserved_def)
  qed
qed

lemma segment_loop_conserved:
  assumes md: "0 < md" and pos: "\<forall>shot\<in>set shots. 0 < duration shot"
  shows "\<exists>st'. segment_loop md ([], 0, 0) shots = Some st' \<and> conserved shots st'"
proof -
  have "\<exists>st'. segment_loop md ([], 0, 0) shots = Some st' \<and> conserved ([] @ shots) st'"
  proof (rule segment_loop_invariant)
    show "conserved [] ([], 0, 0)"
      by (simp add: conserved_def)
  next
    fix pre :: "Shot list" and st :: "segment list \<times> real \<times> real" and shot
    assume "conserved pre st" and "shot \<in> set shots"
    then show "\<exists>st'. segment_step md st shot = Some st' \<and> conserved (pre @ [shot]) st'"
      using segment_step_conserved [OF md, of shot pre "fst st" "fst (snd st)" "snd (snd st)"] pos
      by simp
  qed
  then show ?thesis by simp
qed

lemma contiguous_from_positive: "contiguous_from t shots \<Longrightarrow> \<forall>shot\<in>set shots. 0 < duration shot"
  by (induction shots arbitrary: t) auto

lemma contiguous_from_end:
  "contiguous_from t shots \<Longrightarrow> shots \<noteq> [] \<Longrightarrow>
   t + (\<Sum>shot\<leftarrow>shots. duration shot) = end_time (last shots)"
proof (induction shots arbitrary: t)
  case Nil
  then show ?case by simp
next
  case (Cons shot shots)
  show ?case
  proof (cases "shots = []")
    case True
    with Cons.prems show ?thesis by simp
  next
    case False
    with Cons.prems Cons.IH [of "end_time shot"] show ?thesis by simp
  qed
qed

text \<open>
  C2. For a non-empty list of shots that are contiguous from 0 with
  \<open>duration = end_time - start_time > 0\<close>, and a positive max_duration, \<open>segment\<close>
  returns a non-empty list whose segment lengths add up to the sum of the shot
  durations, and whose last segment ends at the last shot's end_time.
\<close>

theorem segment_conservation:
  assumes "0 < max_duration self" and "shots \<noteq> []" and "contiguous_from 0 shots"
  shows "\<exists>segs. segment self shots = Some segs \<and> segs \<noteq> [] \<and>
           total_length segs = (\<Sum>shot\<leftarrow>shots. duration shot) \<and>
           snd (last segs) = end_time (last shots)"
proof -
  obtain segs cs acc where loop: "segment_loop (max_duration self) ([], 0, 0) shots = Some (segs, cs, acc)"
    and inv: "conserved shots (segs, cs, acc)"
    using segment_loop_conserved [OF assms(1) contiguous_from_positive [OF assms(3)]]
    by (metis prod_cases3)
  let ?out = "fst (flush segs cs acc)"
  have out: "segment self shots = Some ?out"
    using assms(2) loop by (rule segment_of_loop)
  from inv assms(2) have ch: "chain 0 segs cs" and acc: "0 \<le> acc"
    and total: "cs + acc = (\<Sum>shot\<leftarrow>shots. duration shot)" and some: "segs \<noteq> [] \<or> 0 < acc"
    by (simp_all add: conserved_def)
  have ne: "?out \<noteq> []"
    using some by (rule flush_nonempty)
  have "chain 0 ?out (cs + acc)"
    using chain_flush [OF ch, of acc] flush_snd [OF acc, of segs cs] by simp
  then have "total_length ?out = cs + acc" and "snd (last ?out) = cs + acc"
    using ne chain_total_length [of 0 ?out "cs + acc"] chain_last [of 0 ?out "cs + acc"] by simp_all
  with out ne total contiguous_from_end [OF assms(3,2)] show ?thesis
    by simp
qed

theorem segment_conservation_witness:
  "contiguous_from 0 [mk_shot 0 12.5, mk_shot 12.5 20, mk_shot 32.5 61] \<and>
   (\<exists>segs. segment \<lparr>max_duration = 30\<rparr> [mk_shot 0 12.5, mk_shot 12.5 20, mk_shot 32.5 61] = Some segs \<and>
      segs \<noteq> [] \<and> total_length segs = 93.5 \<and> snd (last segs) = 93.5)"
proof -
  have wf: "contiguous_from 0 [mk_shot 0 12.5, mk_shot 12.5 20, mk_shot 32.5 61]"
    by (simp add: mk_shot_def)
  from segment_conservation [of "\<lparr>max_duration = 30\<rparr>", OF _ _ wf] wf show ?thesis
    by (simp add: mk_shot_def)
qed


subsection \<open>A single oversize shot\<close>

lemma chunks_upt:
  "chunks md s k = map (\<lambda>i. (s + md * real i, s + md * real i + md)) [0..<k]"
proof (induction k arbitrary: s)
  case 0
  show ?case by simp
next
  case (Suc k)
  have "map (\<lambda>i. (s + md * real i, s + md * real i + md)) [0..<Suc k]
          = (s, s + md) # map (\<lambda>i. (s + md * real (Suc i), s + md * real (Suc i) + md)) [0..<k]"
    by (simp only: map_upt_Suc) simp
  also have "\<dots> = (s, s + md) # chunks md (s + md) k"
    unfolding Suc [of "s + md"] by (simp add: algebra_simps)
  finally show ?case by simp
qed

text \<open>
  C4. For a positive max_duration \<open>md\<close>, an integer \<open>k \<ge> 1\<close> and \<open>0 < r < md\<close>, a shot
  of duration \<open>md * k + r\<close> standing alone is cut into the \<open>k\<close> segments
  \<open>(md * i, md * i + md)\<close>, \<open>i < k\<close>, each of length \<open>md\<close>, followed by one
  segment \<open>(md * k, md * k + r)\<close> of length \<open>r\<close>.
\<close>

theorem segment_oversize_split:
  assumes "0 < max_duration self" and "1 \<le> k" and "0 < r" and "r < max_duration self"
    and "duration shot = max_duration self * real k + r"
  shows "segment self [shot] =
           Some (map (\<lambda>i. (max_duration self * real i, max_duration self * real i + max_duration self)) [0..<k]
                 @ [(max_duration self * real k, max_duration self * real k + r)])"
proof -
  let ?md = "max_duration self"
  have "?md * 1 \<le> ?md * real k"
    using assms(1,2) by (intro mult_left_mono) simp_all
  then have big: "?md < duration shot"
    using assms(3,5) by simp
  have fits: "duration shot \<le> ?md * real (Suc k)"
    using assms(4,5) by (simp add: algebra_simps)
  have above: "0 < k \<longrightarrow> ?md * real k < duration shot"
    using assms(3,5) by simp
  have "hard_split ?md [] 0 (duration shot) = Some ([] @ chunks ?md 0 k, 0 + ?md * real k, duration shot - ?md * real k)"
    using assms(1) fits above by (rule hard_split_chunks)
  then have "hard_split ?md [] 0 (duration shot) = Some (chunks ?md 0 k, ?md * real k, r)"
    using assms(5) by simp
  then have "segment_step ?md ([], 0, 0) shot = Some (chunks ?md 0 k @ [(?md * real k, ?md * real k + r)], ?md * real k + r, 0)"
    using big assms(3) by (simp add: segment_step_def)
  then show ?thesis
    by (simp add: segment_def chunks_upt)
qed

theorem segment_oversize_split_witness:
  "segment \<lparr>max_duration = 30\<rparr> [mk_shot 0 65] = Some [(0, 30), (30, 60), (60, 65)]"
  using segment_oversize_split [of "\<lparr>max_duration = 30\<rparr>" 2 5 "mk_shot 0 65"]
  by (simp add: mk_shot_def numeral_2_eq_2)

text \<open>
  C5. With max_duration = 30 and five contiguous shots from 0 of durations
  10, 15, 8, 40 and 5, \<open>segment\<close> returns (0,25), (25,33), (33,63), (63,73), (73,78).
\<close>

theorem segment_end_to_end:
  "segment \<lparr>max_duration = 30\<rparr>
     [mk_shot 0 10, mk_shot 10 15, mk_shot 25 8, mk_shot 33 40, mk_shot 73 5]
   = Some [(0, 25), (25, 33), (33, 63), (63, 73), (73, 78)]"
  by (simp add: segment_def segment_step_def mk_shot_def hard_split.simps)


section \<open>Properties of the worker-pool size\<close>

subsection \<open>Reading back a printed integer\<close>

lemma digit_char: "(d::nat) < 10 \<Longrightarrow> is_digit (char_of (48 + d)) \<and> of_char (char_of (48 + d)) - 48 = d"
  by (simp add: is_digit_def)

lemma digit_not_special:
  "is_digit c \<Longrightarrow> \<not> is_space c \<and> c \<noteq> CHR ''-'' \<and> c \<noteq> CHR ''+''"
  by (auto simp: is_digit_def is_space_def)

lemma parse_digits_snoc:
  "is_digit d \<Longrightarrow> parse_digits xs acc = Some m \<Longrightarrow>
   parse_digits (xs @ [d]) acc = Some (10 * m + (of_char d - 48))"
proof (induction xs arbitrary: acc)
  case Nil
  then show ?case by simp
next
  case (Cons c cs)
  then show ?case by (auto split: if_splits)
qed

lemma parse_digits_str_nat: "parse_digits (str_nat n) 0 = Some n"
proof (induction n rule: str_nat.induct)
  case (1 n)
  show ?case
  proof (cases "n < 10")
    case True
    then show ?thesis
      using digit_char [of n] by (subst str_nat.simps) simp
  next
    case False
    have "n mod 10 < 10" by simp
    from digit_char [OF this] "1" [OF False] show ?thesis
      using False by (subst str_nat.simps) (simp add: parse_digits_snoc)
  qed
qed

lemma str_nat_digits: "str_nat n \<noteq> [] \<and> is_digit (hd (str_nat n)) \<and> is_digit (last (str_nat n))"
proof (induction n rule: str_nat.induct)
  case (1 n)
  show ?case
  proof (cases "n < 10")
    case True
    then show ?thesis
      using digit_char [of n] by (subst (1 2 3) str_nat.simps) simp
  next
    case False
    have "n mod 10 < 10" by simp
    from digit_char [OF this] "1" [OF False] show ?thesis
      using False by (subst (1 2 3) str_nat.simps) simp
  qed
qed

lemma strip_clean:
  assumes "s \<noteq> []" and "\<not> is_space (hd s)" and "\<not> is_space (last s)"
  shows "strip s = s"
proof -
  have keep: "dropWhile is_space xs = xs" if "xs \<noteq> []" "\<not> is_space (hd xs)" for xs
    using that by (cases xs) simp_all
  have "hd (rev s) = last s"
    using assms(1) by (simp add: hd_rev)
  with assms have "dropWhile is_space (rev s) = rev s"
    by (intro keep) simp_all
  with keep [OF assms(1,2)] show ?thesis
    by (simp add: strip_def)
qed

lemma py_int_str_int: "py_int (str_int v) = Some v"
proof (cases "v < 0")
  case True
  let ?ds = "str_nat (nat (- v))"
  note ds = str_nat_digits [of "nat (- v)"]
  have "strip (CHR ''-'' # ?ds) = CHR ''-'' # ?ds"
    using ds digit_not_special [of "last ?ds"]
    by (intro strip_clean) (simp_all add: is_space_def)
  with True ds show ?thesis
    by (simp add: py_int_def str_int_def parse_digits_str_nat)
next
  case False
  let ?ds = "str_nat (nat v)"
  note ds = str_nat_digits [of "nat v"]
  have "strip ?ds = ?ds"
    using ds digit_not_special [of "hd ?ds"] digit_not_special [of "last ?ds"]
    by (intro strip_clean) simp_all
  with False ds digit_not_special [of "hd ?ds"] show ?thesis
    by (simp add: py_int_def str_int_def parse_digits_str_nat)
qed

lemma str_int_nonempty: "str_int v \<noteq> []"
  using str_nat_digits by (simp add: str_int_def)

subsection \<open>The size\<close>

lemma int_of_float_scaled:
  "0 \<le> n \<Longrightarrow> int_of_float (of_int n * (6 / 10)) = \<lfloor>of_int n * (6 / 10) :: real\<rfloor>"
  by (simp add: int_of_float_def)

lemma floor_scaled: "\<lfloor>of_int n * (6 / 10) :: real\<rfloor> = (3 * n) div 5"
proof -
  have "(of_int n * (6 / 10) :: real) = of_int (3 * n) / of_int 5"
    by simp
  then show ?thesis
    by (simp only: floor_divide_of_int_eq)
qed

text \<open>
  C9 (as the code has it). Without an override and for a CPU count \<open>n > 0\<close>, the pool
  size is \<open>clamp(floor(n * 0.6), 2, 48)\<close>, where \<open>floor(n * 0.6) = (3 * n) div 5\<close>: at
  least 2, at most 48, and \<open>floor(n * 0.6)\<close> itself whenever that lies in [2, 48].
\<close>

theorem get_max_workers_floor:
  assumes "0 < n"
  shows "get_max_workers (Some n) None = max 2 (min 48 \<lfloor>of_int n * (6 / 10) :: real\<rfloor>) \<and>
         \<lfloor>of_int n * (6 / 10) :: real\<rfloor> = (3 * n) div 5 \<and>
         2 \<le> get_max_workers (Some n) None \<and> get_max_workers (Some n) None \<le> 48 \<and>
         (2 \<le> \<lfloor>of_int n * (6 / 10) :: real\<rfloor> \<and> \<lfloor>of_int n * (6 / 10) :: real\<rfloor> \<le> 48 \<longrightarrow>
            get_max_workers (Some n) None = \<lfloor>of_int n * (6 / 10) :: real\<rfloor>)"
proof -
  have "get_max_workers (Some n) None = max 2 (min 48 \<lfloor>of_int n * (6 / 10) :: real\<rfloor>)"
    using assms int_of_float_scaled [of n] by (simp add: get_max_workers_def)
  then show ?thesis
    using floor_scaled [of n] by auto
qed

theorem get_max_workers_floor_witness:
  "get_max_workers (Some 6) None = 3 \<and> get_max_workers (Some 2) None = 2 \<and>
   get_max_workers (Some 128) None = 48"
  using get_max_workers_floor [of 6] get_max_workers_floor [of 2] get_max_workers_floor [of 128]
  by simp

text \<open>With 6 CPUs the code takes 3 workers, where rounding 3.6 gives 4.\<close>

theorem get_max_workers_round_counterexample:
  "get_max_workers (Some 6) None = 3 \<and> spec_pool_size 6 = 4 \<and>
   get_max_workers (Some 6) None \<noteq> spec_pool_size 6"
proof -
  have "get_max_workers (Some 6) None = 3"
    using int_of_float_scaled [of 6] floor_scaled [of 6] by (simp add: get_max_workers_def)
  moreover have "round (6 * (6 / 10) :: real) = 4"
    by (simp add: round_def)
  then have "spec_pool_size 6 = 4"
    by (simp add: spec_pool_size_def)
  ultimately show ?thesis by simp
qed

text \<open>
  C10. The override is applied after the clamp. Every integer \<open>v\<close>, written in
  decimal in the variable, is the pool size, whatever its value; more generally so is
  every integer that \<^verbatim>\<open>int\<close> reads from the variable. When \<^verbatim>\<open>int\<close> rejects the
  text of the variable, the clamped value computed from the CPU count is the pool
  size, as if the variable were not set. (Texts of at most 4300 characters, which
  every version of \<^verbatim>\<open>int\<close> reads in full, and ASCII texts where \<^verbatim>\<open>int\<close> rejects.)
\<close>

theorem get_max_workers_override:
  "(length (str_int v) \<le> 4300 \<longrightarrow> get_max_workers cpu (Some (str_int v)) = v) \<and>
   (length s \<le> 4300 \<and> py_int s = Some v \<longrightarrow> get_max_workers cpu (Some s) = v) \<and>
   (is_ascii s \<and> py_int s = None \<longrightarrow>
      get_max_workers cpu (Some s) = get_max_workers cpu None \<and>
      2 \<le> get_max_workers cpu (Some s) \<and> get_max_workers cpu (Some s) \<le> 48)"
proof -
  have "py_int [] = None"
    by (simp add: py_int_def strip_def)
  then have "s \<noteq> []" if "py_int s = Some v"
    using that by auto
  then show ?thesis
    using py_int_str_int [of v] str_int_nonempty [of v]
    by (auto simp: get_max_workers_def Let_def)
qed

theorem get_max_workers_override_witness:
  "get_max_workers (Some 8) (Some ''0'') = 0 \<and>
   get_max_workers (Some 8) (Some ''1'') = 1 \<and>
   get_max_workers (Some 8) (Some ''-3'') = - 3 \<and>
   get_max_workers (Some 8) (Some '' 100'') = 100 \<and>
   get_max_workers (Some 8) (Some ''4.5'') = 4 \<and>
   get_max_workers (Some 8) (Some ''many'') = 4"
proof -
  have "py_int ''0'' = Some 0" "py_int ''1'' = Some 1" "py_int ''-3'' = Some (- 3)"
    "py_int '' 100'' = Some 100" "py_int ''4.5'' = None" "py_int ''many'' = None"
    "is_ascii ''4.5''" "is_ascii ''many''"
    by (simp_all add: py_int_def strip_def is_space_def is_digit_def is_ascii_def)
  moreover have "get_max_workers (Some 8) None = 4"
    using int_of_float_scaled [of 8] floor_scaled [of 8] by (simp add: get_max_workers_def)
  ultimately show ?thesis
    using get_max_workers_override [of 0 "Some 8" "''0''"]
      get_max_workers_override [of 1 "Some 8" "''1''"]
      get_max_workers_override [of "- 3" "Some 8" "''-3''"]
      get_max_workers_override [of 100 "Some 8" "'' 100''"]
      get_max_workers_override [of 0 "Some 8" "''4.5''"]
      get_max_workers_override [of 0 "Some 8" "''many''"]
    by simp
qed

section \<open>Properties of the workers\<close>

lemma cut_single_segment_index: "c_index (cut_single_segment env args) = task_index args"
  by (cases args) (simp add: cut_single_segment_def task_index_def split: proc_outcome.split)

lemma cut_single_segment_success:
  "c_status (cut_single_segment env (video_path, start, end', output_path, index)) = ''success''
     \<longleftrightarrow> (\<exists>stderr. run_ffmpeg env video_path start (end' - start) output_path = Completed 0 stderr)"
  by (auto simp: cut_single_segment_def split: proc_outcome.split)

lemma cut_single_segment_failed:
  "c_status (cut_single_segment env args) \<noteq> ''success'' \<Longrightarrow>
   c_status (cut_single_segment env args) = ''failed'' \<and> c_path (cut_single_segment env args) = None \<and>
   (\<exists>msg. c_error (cut_single_segment env args) = Some msg)"
  by (cases args) (auto simp: cut_single_segment_def split: proc_outcome.splits if_splits)

text \<open>
  C7 (the code at the failing input). ffmpeg exits with 0 and leaves no output file,
  or an empty one: the cut worker reports success, where the criterion of the
  specification is not met.
\<close>

theorem cut_success_without_output:
  "c_status (cut_single_segment (example_env\<lparr>output_size := (\<lambda>path. None)\<rparr>)
               (''v.mp4'', 0, 25, ''/tmp/shotcutter_x/segment_1.mp4'', 1)) = ''success'' \<and>
   \<not> spec_cut_success (example_env\<lparr>output_size := (\<lambda>path. None)\<rparr>)
               (''v.mp4'', 0, 25, ''/tmp/shotcutter_x/segment_1.mp4'', 1) \<and>
   c_status (cut_single_segment (example_env\<lparr>output_size := (\<lambda>path. Some 0)\<rparr>)
               (''v.mp4'', 0, 25, ''/tmp/shotcutter_x/segment_1.mp4'', 1)) = ''success'' \<and>
   \<not> spec_cut_success (example_env\<lparr>output_size := (\<lambda>path. Some 0)\<rparr>)
               (''v.mp4'', 0, 25, ''/tmp/shotcutter_x/segment_1.mp4'', 1)"
  by (simp add: cut_single_segment_def spec_cut_success_def example_env_def)

lemma upload_single_segment_fields:
  "u_index (upload_single_segment env (local_path, task_id, index, start, end')) = index"
  "u_task_id (upload_single_segment env (local_path, task_id, index, start, end')) = task_id"
  by (simp_all add: upload_single_segment_def split: sum.split)

lemma upload_single_segment_success:
  "u_status (upload_single_segment env args) = Some ''success'' \<longleftrightarrow>
     (\<exists>url. upload_to_oss_from_local env (fst args) (fst (snd args)) = Inr url)"
  by (cases args) (auto simp: upload_single_segment_def split: sum.splits)

lemma upload_single_segment_success_fields:
  "u_status (upload_single_segment env args) = Some ''success'' \<Longrightarrow>
   u_error (upload_single_segment env args) = None \<and>
   (\<exists>url. u_oss_url (upload_single_segment env args) = Some url)"
  by (cases args) (auto simp: upload_single_segment_def split: sum.splits)

lemma upload_single_segment_failed:
  "u_status (upload_single_segment env args) \<noteq> Some ''success'' \<Longrightarrow>
   u_status (upload_single_segment env args) = Some ''failed'' \<and>
   u_oss_url (upload_single_segment env args) = None \<and>
   (\<exists>msg. u_error (upload_single_segment env args) = Some msg)"
  by (cases args) (auto simp: upload_single_segment_def split: sum.splits)

text \<open>
  C8 (the code at the failing input). The bucket answers with a status other than
  200 (here 403, then 203) without raising: the upload worker reports success, with
  the status code as the URL.
\<close>

theorem upload_success_on_error_status:
  "upload_single_segment (example_env\<lparr>put_object := (\<lambda>object_key content. Inr 403)\<rparr>)
     (Some ''/tmp/shotcutter_x/segment_1.mp4'', ''clip-1'', 1, 0, 25)
   = \<lparr>u_index = 1, u_start = 0, u_end = 25, u_duration = 25, u_task_id = ''clip-1'',
      u_oss_url = Some ''403'', u_status = Some ''success'', u_error = None\<rparr> \<and>
   upload_single_segment (example_env\<lparr>put_object := (\<lambda>object_key content. Inr 203)\<rparr>)
     (Some ''/tmp/shotcutter_x/segment_1.mp4'', ''clip-1'', 1, 0, 25)
   = \<lparr>u_index = 1, u_start = 0, u_end = 25, u_duration = 25, u_task_id = ''clip-1'',
      u_oss_url = Some ''203'', u_status = Some ''success'', u_error = None\<rparr>"
  by code_simp

section \<open>Properties of the pipeline\<close>

lemma cut_tasks_indices:
  "map task_index (cut_tasks env video_path segments) = map (\<lambda>i. int i + 1) [0..<length segments]"
proof -
  have "map task_index (cut_tasks env video_path segments)
          = map ((\<lambda>i. int i + 1) \<circ> fst) (enumerate 0 segments)"
    by (simp add: cut_tasks_def task_index_def split_beta comp_def)
  also have "\<dots> = map (\<lambda>i. int i + 1) (map fst (enumerate 0 segments))"
    by (simp only: map_map)
  also have "\<dots> = map (\<lambda>i. int i + 1) [0..<length segments]"
    by simp
  finally show ?thesis .
qed

lemma cut_tasks_distinct: "distinct (map task_index (cut_tasks env video_path segments))"
  unfolding cut_tasks_indices by (simp add: distinct_map inj_on_def)

lemma upload_task_index:
  "u_index (upload_single_segment env (upload_task name result)) = c_index result"
  "u_task_id (upload_single_segment env (upload_task name result)) = name @ ''-'' @ str_int (c_index result)"
  by (simp_all add: upload_task_def upload_single_segment_fields)

text \<open>A list in another order has the same distinct keys, after any filter.\<close>

lemma distinct_keys_filter_permuted:
  assumes "mset ys = mset xs" and "distinct (map f xs)"
  shows "distinct (map f (filter P ys))"
proof -
  have "mset (map f ys) = mset (map f xs)"
    using assms(1) by simp
  then have "distinct (map f ys)"
    using assms(2) mset_eq_imp_distinct_iff by blast
  then show ?thesis
    by (rule distinct_map_filter)
qed

text \<open>The uploads that are kept, before they are sorted.\<close>

lemma kept_uploads:
  fixes env :: environment and video_path name :: string and segments :: "segment list"
  assumes cut: "\<And>xs. mset (cut_completed env xs) = mset xs"
    and up: "\<And>xs. mset (upload_completed env xs) = mset xs"
  defines "tasks \<equiv> cut_tasks env video_path segments"
  defines "success_cuts \<equiv> filter (\<lambda>r. c_status r = ''success'')
                             (cut_completed env (map (cut_single_segment env) tasks))"
  defines "kept \<equiv> filter (\<lambda>r. u_status r = Some ''success'')
                     (upload_completed env (map (upload_single_segment env) (map (upload_task name) success_cuts)))"
  shows "distinct (map u_index kept)"
    and "set kept = (\<lambda>t. upload_single_segment env (upload_task name (cut_single_segment env t)))
                      ` {t \<in> set tasks. both_succeed env name t}"
proof -
  have "distinct (map c_index (map (cut_single_segment env) tasks))"
    using cut_tasks_distinct [of env video_path segments]
    by (simp add: tasks_def cut_single_segment_index [abs_def] comp_def)
  then have "distinct (map c_index success_cuts)"
    unfolding success_cuts_def by (rule distinct_keys_filter_permuted [OF cut])
  then have "distinct (map u_index (map (upload_single_segment env) (map (upload_task name) success_cuts)))"
    by (simp add: comp_def upload_task_index)
  then show "distinct (map u_index kept)"
    unfolding kept_def by (rule distinct_keys_filter_permuted [OF up])
  have "set success_cuts = {r \<in> cut_single_segment env ` set tasks. c_status r = ''success''}"
    using mset_eq_setD [OF cut] by (auto simp: success_cuts_def)
  moreover have "set kept = {r \<in> (\<lambda>c. upload_single_segment env (upload_task name c)) ` set success_cuts.
                              u_status r = Some ''success''}"
    using mset_eq_setD [OF up] by (auto simp: kept_def)
  ultimately show "set kept = (\<lambda>t. upload_single_segment env (upload_task name (cut_single_segment env t)))
                      ` {t \<in> set tasks. both_succeed env name t}"
    by (auto simp: both_succeed_def)
qed


text \<open>
  C6. Whatever the video path, the segments and the name prefix, whichever cuts and
  uploads fail, and in whatever order the tasks of the two stages complete: the list
  that \<open>cut_and_upload\<close> returns is strictly increasing by index; its indices are
  exactly those of the tasks (numbered from 1 in segment order) for which the cut
  worker and the upload worker both report success; and each entry has the fields
  index, start, end, duration, task_id (the prefix, a hyphen and the index) and a
  URL, without the status key and without an error key.
\<close>

theorem cut_and_upload_ordered_successes:
  fixes env :: environment and video_path name :: string and segments :: "segment list"
  assumes cut: "\<And>xs. mset (cut_completed env xs) = mset xs"
    and up: "\<And>xs. mset (upload_completed env xs) = mset xs"
  shows "sorted_wrt (<) (map u_index (cut_and_upload env video_path segments name)) \<and>
         set (map u_index (cut_and_upload env video_path segments name))
           = task_index ` {t \<in> set (cut_tasks env video_path segments). both_succeed env name t} \<and>
         map task_index (cut_tasks env video_path segments) = map (\<lambda>i. int i + 1) [0..<length segments] \<and>
         (\<forall>r \<in> set (cut_and_upload env video_path segments name).
            u_status r = None \<and> u_error r = None \<and> (\<exists>url. u_oss_url r = Some url) \<and>
            u_task_id r = name @ ''-'' @ str_int (u_index r))"
proof -
  define kept where "kept = filter (\<lambda>r. u_status r = Some ''success'')
     (upload_completed env (map (upload_single_segment env) (map (upload_task name)
        (filter (\<lambda>r. c_status r = ''success'')
           (cut_completed env (map (cut_single_segment env) (cut_tasks env video_path segments)))))))"
  let ?worker = "\<lambda>t. upload_single_segment env (upload_task name (cut_single_segment env t))"
  let ?good = "{t \<in> set (cut_tasks env video_path segments). both_succeed env name t}"
  have result: "cut_and_upload env video_path segments name
                  = map (\<lambda>r. r\<lparr>u_status := None\<rparr>) (sort_key u_index kept)"
    by (simp add: cut_and_upload_def kept_def)
  have dist: "distinct (map u_index kept)" and kept: "set kept = ?worker ` ?good"
    unfolding kept_def by (rule kept_uploads [OF cut up])+
  have indices: "map u_index (cut_and_upload env video_path segments name)
                   = map u_index (sort_key u_index kept)"
    by (simp add: result comp_def)
  have "mset (map u_index (sort_key u_index kept)) = mset (map u_index kept)"
    by simp
  with dist have "distinct (map u_index (sort_key u_index kept))"
    using mset_eq_imp_distinct_iff by blast
  then have sorted: "sorted_wrt (<) (map u_index (cut_and_upload env video_path segments name))"
    unfolding indices by (simp add: strict_sorted_iff)
  have "u_index ` set kept = task_index ` ?good"
    unfolding kept by (simp add: image_image upload_task_index cut_single_segment_index)
  then have members: "set (map u_index (cut_and_upload env video_path segments name)) = task_index ` ?good"
    unfolding indices by simp
  have fields: "u_status r = None \<and> u_error r = None \<and> (\<exists>url. u_oss_url r = Some url) \<and>
                u_task_id r = name @ ''-'' @ str_int (u_index r)"
    if "r \<in> set (cut_and_upload env video_path segments name)" for r
  proof -
    from that obtain r' where r': "r' \<in> set kept" "r = r'\<lparr>u_status := None\<rparr>"
      by (auto simp: result)
    from r'(1) obtain t where t: "r' = ?worker t" "both_succeed env name t"
      unfolding kept by auto
    from t(2) have "u_status (?worker t) = Some ''success''"
      by (simp add: both_succeed_def)
    from upload_single_segment_success_fields [OF this] show ?thesis
      by (simp add: r'(2) t(1) upload_task_index)
  qed
  from sorted members cut_tasks_indices fields show ?thesis
    by blast
qed


text \<open>Four segments; the cut of the second and the upload of the third fail, and the
  tasks of both stages complete in reverse order.\<close>

theorem cut_and_upload_ordered_successes_witness:
  "cut_and_upload example_env ''v.mp4'' [(0, 25), (25, 33), (33, 63), (63, 73)] ''clip''
     = [\<lparr>u_index = 1, u_start = 0, u_end = 25, u_duration = 25, u_task_id = ''clip-1'',
         u_oss_url = Some ''https://ali-saving-data.oss-cn-hangzhou.aliyuncs.com/clip-1.mp4'',
         u_status = None, u_error = None\<rparr>,
        \<lparr>u_index = 4, u_start = 63, u_end = 73, u_duration = 10, u_task_id = ''clip-4'',
         u_oss_url = Some ''https://ali-saving-data.oss-cn-hangzhou.aliyuncs.com/clip-4.mp4'',
         u_status = None, u_error = None\<rparr>] \<and>
   sorted_wrt (<) (map u_index (cut_and_upload example_env ''v.mp4'' [(0, 25), (25, 33), (33, 63), (63, 73)] ''clip'')) \<and>
   set (map u_index (cut_and_upload example_env ''v.mp4'' [(0, 25), (25, 33), (33, 63), (63, 73)] ''clip''))
     = task_index ` {t \<in> set (cut_tasks example_env ''v.mp4'' [(0, 25), (25, 33), (33, 63), (63, 73)]).
                      both_succeed example_env ''clip'' t}"
proof -
  have order: "mset (cut_completed example_env xs) = mset xs"
    "mset (upload_completed example_env ys) = mset ys" for xs ys
    by (simp_all add: example_env_def)
  have "cut_and_upload example_env ''v.mp4'' [(0, 25), (25, 33), (33, 63), (63, 73)] ''clip''
     = [\<lparr>u_index = 1, u_start = 0, u_end = 25, u_duration = 25, u_task_id = ''clip-1'',
         u_oss_url = Some ''https://ali-saving-data.oss-cn-hangzhou.aliyuncs.com/clip-1.mp4'',
         u_status = None, u_error = None\<rparr>,
        \<lparr>u_index = 4, u_start = 63, u_end = 73, u_duration = 10, u_task_id = ''clip-4'',
         u_oss_url = Some ''https://ali-saving-data.oss-cn-hangzhou.aliyuncs.com/clip-4.mp4'',
         u_status = None, u_error = None\<rparr>]"
    by code_simp
  with cut_and_upload_ordered_successes [of example_env "''v.mp4''" "[(0, 25), (25, 33), (33, 63), (63, 73)]" "''clip''", OF order]
  show ?thesis
    by blast
qed

end
